theory Spec2Isabelle
  imports Main "HOL-Library.Char_ord"
begin

section \<open>Document text bridge: \<open>content.split("\n")\<close> and \<open>lines.join("\n")\<close>\<close>

text \<open>
  JavaScript strings are modelled as \<^typ>\<open>string\<close>, one \<^typ>\<open>char\<close> per code unit
  (code units below 256). The line break is the single code unit 10.
\<close>

definition nl :: char where
  "nl = CHR 0x0A"

text \<open>
  \<open>content.split("\n")\<close>: the pieces between line breaks, empty pieces kept; the
  empty string gives one empty line. \<open>cur\<close> holds the current piece, reversed.
\<close>

fun split_acc :: "string \<Rightarrow> string \<Rightarrow> string list" where
  "split_acc cur [] = [rev cur]"
| "split_acc cur (c # cs) =
     (if c = nl then rev cur # split_acc [] cs else split_acc (c # cur) cs)"

definition split_lines :: "string \<Rightarrow> string list" where
  "split_lines s = split_acc [] s"

text \<open>\<open>lines.join("\n")\<close>: no separator before the first or after the last element.\<close>

fun join_lines :: "string list \<Rightarrow> string" where
  "join_lines [] = []"
| "join_lines [l] = l"
| "join_lines (l # m # ls) = l @ nl # join_lines (m # ls)"

section \<open>Edit operations (\<open>TextEditOperation\<close>)\<close>

datatype edit_type = Insert | Replace | Delete

text \<open>
  \<open>{ type; line: number; count?: number; content?: string }\<close>. The numbers the parser
  produces are integers, so \<open>line\<close> and \<open>count\<close> are \<^typ>\<open>int\<close>; an absent optional
  field is \<open>None\<close>.
\<close>

record edit =
  type :: edit_type
  line :: int
  count :: "int option"
  content :: "string option"

text \<open>\<open>edit.count || 1\<close>: an absent count and the count 0 are both falsy.\<close>

definition count_or_1 :: "edit \<Rightarrow> int" where
  "count_or_1 e = (case count e of None \<Rightarrow> 1 | Some c \<Rightarrow> if c = 0 then 1 else c)"

text \<open>\<open>if (edit.content)\<close>: an absent content and the empty string are both falsy.\<close>

definition has_content :: "edit \<Rightarrow> bool" where
  "has_content e = (case content e of None \<Rightarrow> False | Some c \<Rightarrow> c \<noteq> [])"

text \<open>
  \<open>Array.prototype.splice(start, deleteCount, ...items)\<close> on integers: a negative start
  counts from the end, the start is clamped to the array, the delete count is clamped to
  \<open>[0, length - start]\<close>.
\<close>

definition splice :: "'a list \<Rightarrow> int \<Rightarrow> int \<Rightarrow> 'a list \<Rightarrow> 'a list" where
  "splice xs start deleteCount items =
     (let len = int (length xs);
          s = (if start < 0 then max (len + start) 0 else min start len);
          d = min (max deleteCount 0) (len - s)
      in take (nat s) xs @ items @ drop (nat (s + d)) xs)"

section \<open>The patch applier (\<open>applyTextEditChanges\<close>)\<close>

text \<open>The validation at the head of the loop body; a rejected edit is skipped by \<open>continue\<close>.\<close>

definition rejected :: "string list \<Rightarrow> edit \<Rightarrow> bool" where
  "rejected lines e =
     (let lineIndex = line e - 1 in
      if type e = Insert \<and> (lineIndex < 0 \<or> lineIndex > int (length lines) + 1) then True
      else if (type e = Replace \<or> type e = Delete)
              \<and> (lineIndex < 0 \<or> lineIndex \<ge> int (length lines)) then True
      else False)"

text \<open>
  The \<open>switch\<close> of the loop body: the lines after the edit and \<open>lineCountChange\<close>.
\<close>

definition apply_edit :: "string list \<Rightarrow> edit \<Rightarrow> string list \<times> int" where
  "apply_edit lines e =
     (let lineIndex = line e - 1; len = int (length lines) in
      case type e of
        Insert \<Rightarrow>
          if has_content e then
            let newLines = split_lines (the (content e));
                lineIndex' = (if lineIndex > len then len else lineIndex)
            in (splice lines lineIndex' 0 newLines, int (length newLines))
          else (lines, 0)
      | Replace \<Rightarrow>
          if has_content e then
            let cnt = min (count_or_1 e) (len - lineIndex);
                newLines = split_lines (the (content e));
                lineIndex' = (if lineIndex \<ge> len then max 0 (len - 1) else lineIndex)
            in (splice lines lineIndex' cnt newLines, int (length newLines) - cnt)
          else (lines, 0)
      | Delete \<Rightarrow>
          let cnt = min (count_or_1 e) (len - lineIndex)
          in (splice lines lineIndex cnt [], - cnt))"

text \<open>\<open>adjustmentThreshold\<close>: computed from the applied edit \<open>e\<close>, with its count as given.\<close>

definition adjustmentThreshold :: "edit \<Rightarrow> int" where
  "adjustmentThreshold e =
     (if type e = Replace \<or> type e = Delete then line e + count_or_1 e - 1 else line e)"

text \<open>
  The body of the inner loop for one later edit \<open>d\<close>: \<open>len\<close> is the length of the lines
  after the edit \<open>e\<close> was applied.
\<close>

definition adjust :: "edit \<Rightarrow> int \<Rightarrow> nat \<Rightarrow> edit \<Rightarrow> edit" where
  "adjust e lineCountChange len d =
     (if line d > adjustmentThreshold e then
        let l = line d + lineCountChange in
        if l \<le> 0 then d\<lparr>line := 1\<rparr>
        else if type d \<noteq> Insert \<and> l > int len then
          (if type d = Replace \<or> type d = Delete then d\<lparr>line := max 1 (int len)\<rparr>
           else d\<lparr>line := l\<rparr>)
        else d\<lparr>line := l\<rparr>
      else d)"

text \<open>
  The outer loop over the sorted copy: the head of the list is \<open>editsCopy[i]\<close>, the tail is
  \<open>editsCopy[i+1..]\<close>, the only part the inner loop writes to.
\<close>

fun apply_loop :: "string list \<Rightarrow> edit list \<Rightarrow> string list" where
  "apply_loop lines [] = lines"
| "apply_loop lines (e # rest) =
     (if rejected lines e then apply_loop lines rest
      else
        let (lines', lineCountChange) = apply_edit lines e in
        apply_loop lines'
          (if lineCountChange \<noteq> 0 then map (adjust e lineCountChange (length lines')) rest
           else rest))"

text \<open>
  \<open>editsCopy.sort((a, b) => a.line - b.line)\<close> is a stable sort by ascending line; so is
  \<^const>\<open>sort_key\<close>.
\<close>

definition applyTextEditChanges :: "string \<Rightarrow> edit list \<Rightarrow> string" where
  "applyTextEditChanges c edits =
     (if edits = [] then c
      else join_lines (apply_loop (split_lines c) (sort_key line edits)))"

section \<open>Regular expressions as backtracking matchers\<close>

text \<open>
  The regular expressions of the source are written with matcher combinators in
  continuation-passing style: a matcher takes the continuation \<open>k\<close> for what follows it in
  the pattern and the remaining input, and returns the first result the backtracking
  search of the JavaScript engine finds (\<open>None\<close> when every alternative fails).
\<close>

text \<open>A literal piece of a pattern.\<close>

fun lit :: "string \<Rightarrow> (string \<Rightarrow> 'a option) \<Rightarrow> string \<Rightarrow> 'a option" where
  "lit [] k s = k s"
| "lit (p # ps) k [] = None"
| "lit (p # ps) k (c # cs) = (if p = c then lit ps k cs else None)"

text \<open>\<open>X*\<close> for a character class \<open>X\<close>: greedy, the longest run first, then shorter ones.\<close>

fun star :: "(char \<Rightarrow> bool) \<Rightarrow> (string \<Rightarrow> 'a option) \<Rightarrow> string \<Rightarrow> 'a option" where
  "star P k [] = k []"
| "star P k (c # cs) =
     (if P c then (case star P k cs of Some r \<Rightarrow> Some r | None \<Rightarrow> k (c # cs))
      else k (c # cs))"

text \<open>\<open>X+\<close>: one character of the class, then \<open>X*\<close>.\<close>

fun plus :: "(char \<Rightarrow> bool) \<Rightarrow> (string \<Rightarrow> 'a option) \<Rightarrow> string \<Rightarrow> 'a option" where
  "plus P k [] = None"
| "plus P k (c # cs) = (if P c then star P k cs else None)"

text \<open>\<open>X*?\<close>: lazy, the shortest run first, then longer ones.\<close>

fun lazy_star :: "(char \<Rightarrow> bool) \<Rightarrow> (string \<Rightarrow> 'a option) \<Rightarrow> string \<Rightarrow> 'a option" where
  "lazy_star P k [] = k []"
| "lazy_star P k (c # cs) =
     (case k (c # cs) of Some r \<Rightarrow> Some r
      | None \<Rightarrow> if P c then lazy_star P k cs else None)"

text \<open>\<open>A|B\<close>: the left alternative first.\<close>

definition alt ::
  "((string \<Rightarrow> 'a option) \<Rightarrow> string \<Rightarrow> 'a option) \<Rightarrow> ((string \<Rightarrow> 'a option) \<Rightarrow> string \<Rightarrow> 'a option)
   \<Rightarrow> (string \<Rightarrow> 'a option) \<Rightarrow> string \<Rightarrow> 'a option" where
  "alt a b k s = (case a k s of Some r \<Rightarrow> Some r | None \<Rightarrow> b k s)"

text \<open>
  A capture group is read off the input before and after it: \<open>s2\<close> is the suffix of \<open>s1\<close>
  that remains after the group.
\<close>

definition cap :: "string \<Rightarrow> string \<Rightarrow> string" where
  "cap s1 s2 = take (length s1 - length s2) s1"

text \<open>
  Character classes on code units below 256: \<open>\s\<close> is tab, line feed, vertical tab, form
  feed, carriage return, space and no-break space; \<open>\d\<close> is an ASCII digit; \<open>[\s\S]\<close> is any
  code unit; \<open>[^>]\<close> is any code unit but \<open>>\<close>.
\<close>

definition is_space :: "char \<Rightarrow> bool" where
  "is_space c \<longleftrightarrow> c \<in> {CHR 0x09, CHR 0x0A, CHR 0x0B, CHR 0x0C, CHR 0x0D, CHR 0x20, CHR 0xA0}"

definition is_digit :: "char \<Rightarrow> bool" where
  "is_digit c \<longleftrightarrow> CHR ''0'' \<le> c \<and> c \<le> CHR ''9''"

definition any_char :: "char \<Rightarrow> bool" where
  "any_char c \<longleftrightarrow> True"

definition not_gt :: "char \<Rightarrow> bool" where
  "not_gt c \<longleftrightarrow> c \<noteq> CHR ''>''"

definition dq :: string where
  "dq = [CHR 0x22]"

text \<open>
  All matches of a global regular expression, left to right, with the index of each
  (\<open>matchAll\<close>, and \<open>match\<close> with the \<open>g\<close> flag): after a match the search goes on where the
  match ended; an empty match moves on by one code unit. A matcher returns its captures
  and the input left after the match.
\<close>

fun matchAll :: "(string \<Rightarrow> ('a \<times> string) option) \<Rightarrow> nat \<Rightarrow> string \<Rightarrow> (nat \<times> 'a) list" where
  "matchAll m pos [] = (case m [] of Some (a, r) \<Rightarrow> [(pos, a)] | None \<Rightarrow> [])"
| "matchAll m pos (c # cs) =
     (case m (c # cs) of
        None \<Rightarrow> matchAll m (Suc pos) cs
      | Some (a, r) \<Rightarrow>
          (pos, a) #
          (if length r < length (c # cs)
           then matchAll m (pos + (length (c # cs) - length r)) r
           else matchAll m (Suc pos) cs))"

text \<open>\<open>(s.match(regex) || []).length\<close> with the \<open>g\<close> flag: the number of matches.\<close>

definition count_matches :: "(string \<Rightarrow> ('a \<times> string) option) \<Rightarrow> string \<Rightarrow> nat" where
  "count_matches m s = length (matchAll m 0 s)"

text \<open>\<open>regex.test(s)\<close> without the \<open>g\<close> flag: is there a match at some index.\<close>

fun test :: "(string \<Rightarrow> 'a option) \<Rightarrow> string \<Rightarrow> bool" where
  "test m [] = (m [] \<noteq> None)"
| "test m (c # cs) = (m (c # cs) \<noteq> None \<or> test m cs)"

section \<open>The directive extractor (\<open>parseTextEditMarkup\<close>)\<close>

text \<open>\<open>\s+line\s*=\s*"(\d+)"\<close>, the continuation receives the digits.\<close>

definition line_attr :: "(string \<Rightarrow> string \<Rightarrow> 'a option) \<Rightarrow> string \<Rightarrow> 'a option" where
  "line_attr k =
     plus is_space (lit ''line'' (star is_space (lit ''='' (star is_space (lit dq
       (\<lambda>d1. plus is_digit (\<lambda>d2. lit dq (k (cap d1 d2)) d2) d1))))))"

text \<open>
  \<open>(?:\s+count\s*=\s*"(\d+)")?\<close>: the group is tried first, with what follows it; if that
  fails, what follows is tried without the group and the capture is undefined.
\<close>

definition count_attr :: "(string option \<Rightarrow> string \<Rightarrow> 'a option) \<Rightarrow> string \<Rightarrow> 'a option" where
  "count_attr k s =
     (case plus is_space (lit ''count'' (star is_space (lit ''='' (star is_space (lit dq
             (\<lambda>d1. plus is_digit (\<lambda>d2. lit dq (k (Some (cap d1 d2))) d2) d1)))))) s of
        Some r \<Rightarrow> Some r
      | None \<Rightarrow> k None s)"

text \<open>\<open>/<textedit:insert\s+line\s*=\s*"(\d+)"\s*>([\s\S]*?)<\/textedit:insert>/g\<close>\<close>

definition insertRegex :: "string \<Rightarrow> ((string \<times> string) \<times> string) option" where
  "insertRegex =
     lit ''<textedit:insert'' (line_attr (\<lambda>l. star is_space (lit ''>''
       (\<lambda>b1. lazy_star any_char
          (\<lambda>b2. lit ''</textedit:insert>'' (\<lambda>r. Some ((l, cap b1 b2), r)) b2) b1))))"

text \<open>
  \<open>/<textedit:replace\s+line\s*=\s*"(\d+)"(?:\s+count\s*=\s*"(\d+)")?\s*>([\s\S]*?)<\/textedit:replace>/g\<close>
\<close>

definition replaceRegex :: "string \<Rightarrow> ((string \<times> string option \<times> string) \<times> string) option" where
  "replaceRegex =
     lit ''<textedit:replace'' (line_attr (\<lambda>l. count_attr (\<lambda>c. star is_space (lit ''>''
       (\<lambda>b1. lazy_star any_char
          (\<lambda>b2. lit ''</textedit:replace>'' (\<lambda>r. Some ((l, c, cap b1 b2), r)) b2) b1)))))"

text \<open>\<open>/<textedit:delete\s+line\s*=\s*"(\d+)"(?:\s+count\s*=\s*"(\d+)")?\s*\/>/g\<close>\<close>

definition deleteRegex :: "string \<Rightarrow> ((string \<times> string option) \<times> string) option" where
  "deleteRegex =
     lit ''<textedit:delete'' (line_attr (\<lambda>l. count_attr (\<lambda>c. star is_space
       (lit ''/>'' (\<lambda>r. Some ((l, c), r))))))"

text \<open>
  \<open>parseInt(digits, 10)\<close> on a non-empty run of ASCII digits, as an exact integer (the
  source's numbers are doubles, exact up to \<open>2^53\<close>).
\<close>

definition parseInt :: "string \<Rightarrow> int" where
  "parseInt ds = foldl (\<lambda>n c. 10 * n + (int (of_char c) - 48)) 0 ds"

text \<open>\<open>String.prototype.trim\<close>: white space and line terminators off both ends.\<close>

definition trim :: "string \<Rightarrow> string" where
  "trim s = rev (dropWhile is_space (rev (dropWhile is_space s)))"

text \<open>
  The three passes over the trimmed message. Each keeps the index of its matches (the
  \<open>index\<close> of a match object); the source's arrays are the second components.
\<close>

definition insertion_of :: "string \<times> string \<Rightarrow> edit" where
  "insertion_of m =
     \<lparr>type = Insert, line = parseInt (fst m), count = None, content = Some (snd m)\<rparr>"

definition replacement_of :: "string \<times> string option \<times> string \<Rightarrow> edit" where
  "replacement_of m =
     \<lparr>type = Replace, line = parseInt (fst m),
      count = Some (case fst (snd m) of Some ds \<Rightarrow> parseInt ds | None \<Rightarrow> 1),
      content = Some (snd (snd m))\<rparr>"

definition deletion_of :: "string \<times> string option \<Rightarrow> edit" where
  "deletion_of m =
     \<lparr>type = Delete, line = parseInt (fst m),
      count = Some (case snd m of Some ds \<Rightarrow> parseInt ds | None \<Rightarrow> 1),
      content = None\<rparr>"

definition located_insertions :: "string \<Rightarrow> (nat \<times> edit) list" where
  "located_insertions trimmedMessage =
     filter (\<lambda>(i, edit). line edit > 0)
       (map (\<lambda>(i, m). (i, insertion_of m)) (matchAll insertRegex 0 trimmedMessage))"

definition located_replacements :: "string \<Rightarrow> (nat \<times> edit) list" where
  "located_replacements trimmedMessage =
     filter (\<lambda>(i, edit). line edit > 0 \<and> count_or_1 edit > 0)
       (map (\<lambda>(i, m). (i, replacement_of m)) (matchAll replaceRegex 0 trimmedMessage))"

definition located_deletions :: "string \<Rightarrow> (nat \<times> edit) list" where
  "located_deletions trimmedMessage =
     filter (\<lambda>(i, edit). line edit > 0 \<and> count_or_1 edit > 0)
       (map (\<lambda>(i, m). (i, deletion_of m)) (matchAll deleteRegex 0 trimmedMessage))"

definition allInsertions :: "string \<Rightarrow> edit list" where
  "allInsertions trimmedMessage = map snd (located_insertions trimmedMessage)"

definition allReplacements :: "string \<Rightarrow> edit list" where
  "allReplacements trimmedMessage = map snd (located_replacements trimmedMessage)"

definition allDeletions :: "string \<Rightarrow> edit list" where
  "allDeletions trimmedMessage = map snd (located_deletions trimmedMessage)"

text \<open>
  \<open>parseTextEditMarkup\<close>: an empty message returns no edits; otherwise
  \<open>edits.push(...allInsertions, ...allReplacements, ...allDeletions)\<close>.
\<close>

definition parseTextEditMarkup :: "string \<Rightarrow> edit list" where
  "parseTextEditMarkup message =
     (if message = [] then []
      else let trimmedMessage = trim message in
           allInsertions trimmedMessage @ allReplacements trimmedMessage
           @ allDeletions trimmedMessage)"

section \<open>The completeness check (\<open>hasIncompleteXmlTags\<close>)\<close>

text \<open>
  With the \<open>i\<close> flag a pattern character and an input code unit match when their
  canonical forms (upper case) agree. The patterns are ASCII, and a code unit from 128 on
  never canonicalizes to an ASCII one, so upper-casing the ASCII letters decides the match.
\<close>

definition canonicalize :: "char \<Rightarrow> char" where
  "canonicalize c =
     (if CHR ''a'' \<le> c \<and> c \<le> CHR ''z'' then char_of (of_char c - (32::nat)) else c)"

fun lit_ci :: "string \<Rightarrow> (string \<Rightarrow> 'a option) \<Rightarrow> string \<Rightarrow> 'a option" where
  "lit_ci [] k s = k s"
| "lit_ci (p # ps) k [] = None"
| "lit_ci (p # ps) k (c # cs) =
     (if canonicalize p = canonicalize c then lit_ci ps k cs else None)"

text \<open>The end of a pattern without capture groups: the match leaves \<open>r\<close>.\<close>

definition done_match :: "string \<Rightarrow> (unit \<times> string) option" where
  "done_match r = Some ((), r)"

text \<open>\<open>/<textedit:(insert|replace|delete)/i\<close>\<close>

definition hasTagRegex :: "string \<Rightarrow> (unit \<times> string) option" where
  "hasTagRegex =
     lit_ci ''<textedit:''
       (alt (lit_ci ''insert'') (alt (lit_ci ''replace'') (lit_ci ''delete'')) done_match)"

text \<open>\<open>/<textedit:(insert|replace|delete)/g\<close>\<close>

definition openTagRegex :: "string \<Rightarrow> (unit \<times> string) option" where
  "openTagRegex =
     lit ''<textedit:'' (alt (lit ''insert'') (alt (lit ''replace'') (lit ''delete'')) done_match)"

text \<open>\<open>/<\/textedit:(insert|replace)>|<textedit:delete[^>]*\/>/g\<close>\<close>

definition closeTagRegex :: "string \<Rightarrow> (unit \<times> string) option" where
  "closeTagRegex =
     alt (\<lambda>k. lit ''</textedit:'' (alt (lit ''insert'') (lit ''replace'') (lit ''>'' k)))
         (\<lambda>k. lit ''<textedit:delete'' (star not_gt (lit ''/>'' k)))
       done_match"

definition openTags :: "string \<Rightarrow> nat" where
  "openTags c = count_matches openTagRegex c"

definition closeTags :: "string \<Rightarrow> nat" where
  "closeTags c = count_matches closeTagRegex c"

definition hasIncompleteXmlTags :: "string \<Rightarrow> bool" where
  "hasIncompleteXmlTags c \<longleftrightarrow> test hasTagRegex c \<and> openTags c \<noteq> closeTags c"

text \<open>The completeness signal is the negation: the caller shows the pending state while
  \<open>hasIncompleteXmlTags\<close> holds.\<close>

definition is_complete :: "string \<Rightarrow> bool" where
  "is_complete c \<longleftrightarrow> \<not> hasIncompleteXmlTags c"

text \<open>
  The markers of one directive kind, counted the way the source counts matches: the
  opening marker \<open><textedit:KIND\<close>; the closing marker \<open></textedit:KIND>\<close> of an insert or
  replace, and the self-closing form \<open><textedit:delete ... />\<close> of a delete.
\<close>

fun kind_name :: "edit_type \<Rightarrow> string" where
  "kind_name Insert = ''insert''"
| "kind_name Replace = ''replace''"
| "kind_name Delete = ''delete''"

definition opening_markers :: "edit_type \<Rightarrow> string \<Rightarrow> nat" where
  "opening_markers kind c =
     count_matches (lit (''<textedit:'' @ kind_name kind) done_match) c"

definition closing_markers :: "edit_type \<Rightarrow> string \<Rightarrow> nat" where
  "closing_markers kind c =
     (case kind of
        Delete \<Rightarrow> count_matches (lit ''<textedit:delete'' (star not_gt (lit ''/>'' done_match))) c
      | _ \<Rightarrow> count_matches (lit (''</textedit:'' @ kind_name kind @ ''>'') done_match) c)"

text \<open>Every kind has as many opening as closing markers.\<close>

definition per_kind_balanced :: "string \<Rightarrow> bool" where
  "per_kind_balanced c \<longleftrightarrow>
     opening_markers Insert c = closing_markers Insert c
     \<and> opening_markers Replace c = closing_markers Replace c
     \<and> opening_markers Delete c = closing_markers Delete c"

section \<open>Properties of the text bridge\<close>

lemma split_acc_nonempty: "split_acc cur s \<noteq> []"
  by (induction s arbitrary: cur) auto

lemma join_lines_Cons: "ls \<noteq> [] \<Longrightarrow> join_lines (l # ls) = l @ nl # join_lines ls"
  by (cases ls) auto

lemma join_split_acc: "join_lines (split_acc cur s) = rev cur @ s"
  by (induction s arbitrary: cur) (auto simp: join_lines_Cons split_acc_nonempty)

lemma join_split_lines: "join_lines (split_lines s) = s"
  by (simp add: split_lines_def join_split_acc)

text \<open>
  Claim C8 (bridge round trip). Splitting a document text on line breaks and joining the
  lines with a single line break gives the text back. This holds for every text, with or
  without a trailing line break: a trailing break yields a last empty line, which the join
  turns back into the break.
\<close>

theorem bridge_roundtrip: "join_lines (split_lines s) = s"
  by (simp add: split_lines_def join_split_acc)

section \<open>Properties of the patch applier\<close>

lemma apply_loop_skip_rejected:
  "rejected lines e \<Longrightarrow> apply_loop lines (e # rest) = apply_loop lines rest"
  by simp

lemma apply_loop_no_content:
  "type e = Insert \<or> type e = Replace \<Longrightarrow> \<not> has_content e \<Longrightarrow>
   apply_loop lines (e # rest) = apply_loop lines rest"
  by (auto simp: apply_edit_def)

text \<open>
  Claim C9 (empty batch). With no edits \<open>applyTextEditChanges\<close> returns the content it was
  given, and the loop over an empty (sorted) batch returns the lines it was given.
\<close>

theorem empty_batch_identity:
  "applyTextEditChanges c [] = c \<and> apply_loop lines (sort_key line []) = lines"
  by (simp add: applyTextEditChanges_def)

text \<open>
  Claim C1 (cascading shift). On the five lines L1..L5 the batch
  Insert(line 2, "A\<newline>B"), Replace(line 4, count 1, "R") gives
  L1, A, B, L2, L3, R, L5: the insert moves the replace from line 4 to line 6. Stated for
  the function on texts and for the loop on the line array.
\<close>

theorem cascading_shift:
  "applyTextEditChanges ''L1\<newline>L2\<newline>L3\<newline>L4\<newline>L5''
     [\<lparr>type = Insert, line = 2, count = None, content = Some ''A\<newline>B''\<rparr>,
      \<lparr>type = Replace, line = 4, count = Some 1, content = Some ''R''\<rparr>]
     = ''L1\<newline>A\<newline>B\<newline>L2\<newline>L3\<newline>R\<newline>L5''
   \<and> apply_loop [''L1'', ''L2'', ''L3'', ''L4'', ''L5'']
       (sort_key line
         [\<lparr>type = Insert, line = 2, count = None, content = Some ''A\<newline>B''\<rparr>,
          \<lparr>type = Replace, line = 4, count = Some 1, content = Some ''R''\<rparr>])
     = [''L1'', ''A'', ''B'', ''L2'', ''L3'', ''R'', ''L5'']"
  by code_simp

text \<open>
  What the inner loop does to a later edit: at or below the threshold it is left as it is;
  above it the line moves by the change and is then clamped. The threshold is the last
  line the edit touched as long as its count was not clamped to the lines left.
\<close>

lemma adjust_at_or_below_threshold:
  "line d \<le> adjustmentThreshold e \<Longrightarrow> adjust e lineCountChange len d = d"
  by (simp add: adjust_def)

lemma adjust_above_threshold:
  "line d > adjustmentThreshold e \<Longrightarrow>
   adjust e lineCountChange len d =
     d\<lparr>line := (if line d + lineCountChange \<le> 0 then 1
                  else if type d \<noteq> Insert \<and> line d + lineCountChange > int len
                       then max 1 (int len)
                  else line d + lineCountChange)\<rparr>"
  by (cases "type d") (auto simp: adjust_def Let_def)

lemma threshold_unclamped:
  "type e = Replace \<or> type e = Delete \<Longrightarrow>
   count_or_1 e \<le> int (length lines) - (line e - 1) \<Longrightarrow>
   adjustmentThreshold e
     = line e + min (count_or_1 e) (int (length lines) - (line e - 1)) - 1"
  by (simp add: adjustmentThreshold_def)

text \<open>
  Claim C2 (shift propagation boundary), evaluated where the code departs from it. On the
  three lines a, b, c the edit Delete(line 2, count 5) removes the two lines b and c (its
  count is clamped to 2, the change is -2), so the last line it touches is line 3. The
  later edit Insert(line 5, "X") lies beyond line 3, yet \<open>adjust\<close> leaves its line at 5,
  because the threshold is computed from the count as given: 2 + 5 - 1 = 6. The insert is
  then rejected against the one remaining line and the result is the text a.
\<close>

theorem threshold_unclamped_count:
  "apply_edit [''a'', ''b'', ''c''] \<lparr>type = Delete, line = 2, count = Some 5, content = None\<rparr>
     = ([''a''], - 2)
   \<and> adjust \<lparr>type = Delete, line = 2, count = Some 5, content = None\<rparr> (- 2) 1
        \<lparr>type = Insert, line = 5, count = None, content = Some ''X''\<rparr>
     = \<lparr>type = Insert, line = 5, count = None, content = Some ''X''\<rparr>
   \<and> applyTextEditChanges ''a\<newline>b\<newline>c''
        [\<lparr>type = Delete, line = 2, count = Some 5, content = None\<rparr>,
         \<lparr>type = Insert, line = 5, count = None, content = Some ''X''\<rparr>] = ''a''"
  by code_simp

text \<open>
  Claim C4 as stated fails: an insert whose 0-based index exceeds the number of lines by
  more than one is rejected by the validation at the head of the loop. On the one-line
  document a, Insert(line 4, "X") leaves the document unchanged.
\<close>

theorem insert_beyond_rejected_counterexample:
  "applyTextEditChanges ''a''
     [\<lparr>type = Insert, line = 4, count = None, content = Some ''X''\<rparr>] = ''a''"
  by code_simp

text \<open>
  Claim C4, amended. An insert with line at least 1, non-empty content and 0-based index
  at most the number of lines plus one is not rejected: its content lines are spliced in
  at the index clamped to the number of lines (an index one past the end appends), and the
  loop goes on with the remaining edits adjusted by the number of inserted lines. An insert
  whose index exceeds the number of lines plus one is skipped.
\<close>

theorem insert_within_reach:
  "(\<forall>lines e rest c.
      type e = Insert \<and> 1 \<le> line e \<and> content e = Some c \<and> c \<noteq> []
      \<and> line e - 1 \<le> int (length lines) + 1
      \<longrightarrow> \<not> rejected lines e
          \<and> apply_loop lines (e # rest) =
              apply_loop
                (take (min (nat (line e - 1)) (length lines)) lines @ split_lines c
                 @ drop (min (nat (line e - 1)) (length lines)) lines)
                (map (adjust e (int (length (split_lines c)))
                        (length lines + length (split_lines c))) rest))
   \<and> (\<forall>lines e rest.
      type e = Insert \<and> int (length lines) + 1 < line e - 1
      \<longrightarrow> apply_loop lines (e # rest) = apply_loop lines rest)"
proof (intro conjI allI impI)
  fix lines :: "string list" and e :: edit and rest :: "edit list" and c :: string
  assume a: "type e = Insert \<and> 1 \<le> line e \<and> content e = Some c \<and> c \<noteq> []
      \<and> line e - 1 \<le> int (length lines) + 1"
  then show nr: "\<not> rejected lines e" by (auto simp: rejected_def)
  let ?k = "min (nat (line e - 1)) (length lines)"
  let ?new = "split_lines c"
  from a have hc: "has_content e" by (simp add: has_content_def)
  have pos: "0 < length ?new" by (simp add: split_lines_def split_acc_nonempty)
  have sp: "splice lines (if line e - 1 > int (length lines) then int (length lines) else line e - 1) 0 ?new
            = take ?k lines @ ?new @ drop ?k lines"
    using a by (auto simp: splice_def Let_def min_def)
  have ae: "apply_edit lines e = (take ?k lines @ ?new @ drop ?k lines, int (length ?new))"
    using a hc sp by (simp add: apply_edit_def Let_def)
  have len: "length (take ?k lines @ ?new @ drop ?k lines) = length lines + length ?new"
    by auto
  show "apply_loop lines (e # rest) =
              apply_loop
                (take ?k lines @ ?new @ drop ?k lines)
                (map (adjust e (int (length ?new)) (length lines + length ?new)) rest)"
    using nr ae pos len by (simp del: length_append)
next
  fix lines :: "string list" and e :: edit and rest :: "edit list"
  assume "type e = Insert \<and> int (length lines) + 1 < line e - 1"
  then have "rejected lines e" by (auto simp: rejected_def)
  then show "apply_loop lines (e # rest) = apply_loop lines rest" by simp
qed

theorem insert_within_reach_witness:
  "apply_loop [''a''] [\<lparr>type = Insert, line = 3, count = None, content = Some ''X''\<rparr>] = [''a'', ''X'']
   \<and> apply_loop [''a''] [\<lparr>type = Insert, line = 4, count = None, content = Some ''X''\<rparr>] = [''a'']"
proof -
  let ?e3 = "\<lparr>type = Insert, line = 3, count = None, content = Some ''X''\<rparr>"
  let ?e4 = "\<lparr>type = Insert, line = 4, count = None, content = Some ''X''\<rparr>"
  have h3: "type ?e3 = Insert \<and> 1 \<le> line ?e3 \<and> content ?e3 = Some ''X'' \<and> ''X'' \<noteq> []
      \<and> line ?e3 - 1 \<le> int (length [''a'']) + 1"
    by simp
  have h4: "type ?e4 = Insert \<and> int (length [''a'']) + 1 < line ?e4 - 1"
    by simp
  from insert_within_reach h3
  have "apply_loop [''a''] (?e3 # []) =
          apply_loop
            (take (min (nat (line ?e3 - 1)) (length [''a''])) [''a''] @ split_lines ''X''
             @ drop (min (nat (line ?e3 - 1)) (length [''a''])) [''a''])
            (map (adjust ?e3 (int (length (split_lines ''X'')))
                    (length [''a''] + length (split_lines ''X''))) [])"
    by blast
  also have "\<dots> = [''a'', ''X'']"
    by (simp add: split_lines_def nl_def)
  finally have r3: "apply_loop [''a''] [?e3] = [''a'', ''X'']" .
  from insert_within_reach h4
  have "apply_loop [''a''] (?e4 # []) = apply_loop [''a''] []"
    by blast
  also have "\<dots> = [''a'']"
    by simp
  finally have r4: "apply_loop [''a''] [?e4] = [''a'']" .
  from r3 r4 show ?thesis by (rule conjI)
qed

text \<open>
  Claim C7 (out-of-range skip). A replace or delete whose 0-based index is negative or not
  below the number of lines is skipped: the loop goes on with the same lines and the same
  remaining edits. Alone in a batch it leaves the text unchanged; in particular
  Replace(line 10, count 1, "X") on any three-line text returns the text. The functions are
  total, so nothing is raised.
\<close>

theorem out_of_range_skip:
  "(\<forall>lines e rest.
      (type e = Replace \<or> type e = Delete) \<and> (line e - 1 < 0 \<or> int (length lines) \<le> line e - 1)
      \<longrightarrow> apply_loop lines (e # rest) = apply_loop lines rest)
   \<and> (\<forall>c e.
      (type e = Replace \<or> type e = Delete)
      \<and> (line e - 1 < 0 \<or> int (length (split_lines c)) \<le> line e - 1)
      \<longrightarrow> applyTextEditChanges c [e] = c)
   \<and> (\<forall>c. length (split_lines c) = 3
      \<longrightarrow> applyTextEditChanges c
            [\<lparr>type = Replace, line = 10, count = Some 1, content = Some ''X''\<rparr>] = c)"
proof -
  have step: "apply_loop lines (e # rest) = apply_loop lines rest"
    if "type e = Replace \<or> type e = Delete"
      and "line e - 1 < 0 \<or> int (length lines) \<le> line e - 1"
    for lines e rest
  proof -
    from that have "rejected lines e" by (auto simp: rejected_def)
    then show ?thesis by (rule apply_loop_skip_rejected)
  qed
  have single: "applyTextEditChanges c [e] = c"
    if "type e = Replace \<or> type e = Delete"
      and "line e - 1 < 0 \<or> int (length (split_lines c)) \<le> line e - 1"
    for c e
    using step [OF that, of "[]"] by (simp add: applyTextEditChanges_def join_split_lines)
  have "applyTextEditChanges c
            [\<lparr>type = Replace, line = 10, count = Some 1, content = Some ''X''\<rparr>] = c"
    if "length (split_lines c) = 3" for c
    by (rule single) (simp_all add: that)
  with step single show ?thesis by blast
qed

theorem out_of_range_skip_witness:
  "length (split_lines ''a\<newline>b\<newline>c'') = 3
   \<and> applyTextEditChanges ''a\<newline>b\<newline>c''
        [\<lparr>type = Replace, line = 10, count = Some 1, content = Some ''X''\<rparr>] = ''a\<newline>b\<newline>c''
   \<and> type \<lparr>type = Delete, line = 0, count = None, content = None\<rparr> = Delete
   \<and> apply_loop [''a'']
        [\<lparr>type = Delete, line = 0, count = None, content = None\<rparr>,
         \<lparr>type = Insert, line = 1, count = None, content = Some ''b''\<rparr>]
       = apply_loop [''a''] [\<lparr>type = Insert, line = 1, count = None, content = Some ''b''\<rparr>]"
proof -
  have l: "length (split_lines ''a\<newline>b\<newline>c'') = 3"
    by (simp add: split_lines_def nl_def)
  let ?d = "\<lparr>type = Delete, line = 0, count = None, content = None\<rparr>"
  have d: "(type ?d = Replace \<or> type ?d = Delete)
           \<and> (line ?d - 1 < 0 \<or> int (length [''a'']) \<le> line ?d - 1)"
    by simp
  from out_of_range_skip l
  have r1: "applyTextEditChanges ''a\<newline>b\<newline>c''
        [\<lparr>type = Replace, line = 10, count = Some 1, content = Some ''X''\<rparr>] = ''a\<newline>b\<newline>c''"
    by blast
  from out_of_range_skip d
  have r2: "apply_loop [''a'']
        (?d # [\<lparr>type = Insert, line = 1, count = None, content = Some ''b''\<rparr>])
       = apply_loop [''a''] [\<lparr>type = Insert, line = 1, count = None, content = Some ''b''\<rparr>]"
    by blast
  from l r1 r2 show ?thesis by simp
qed

text \<open>
  Claim C10 (empty content). An insert or replace whose content is absent or the empty
  string changes nothing: the loop goes on with the same lines and the same remaining
  edits (no line is inserted, no shift is propagated), and alone in a batch it leaves the
  text unchanged.
\<close>

theorem empty_content_noop:
  "type e = Insert \<or> type e = Replace \<Longrightarrow> content e = None \<or> content e = Some [] \<Longrightarrow>
   apply_loop lines (e # rest) = apply_loop lines rest \<and> applyTextEditChanges c [e] = c"
proof -
  assume t: "type e = Insert \<or> type e = Replace"
    and c: "content e = None \<or> content e = Some []"
  from c have "\<not> has_content e" by (auto simp: has_content_def)
  with t have "\<And>ls r. apply_loop ls (e # r) = apply_loop ls r" by (rule apply_loop_no_content)
  then show ?thesis by (simp add: applyTextEditChanges_def join_split_lines)
qed

theorem empty_content_noop_witness:
  "apply_loop [''a'', ''b'']
     [\<lparr>type = Insert, line = 1, count = None, content = Some []\<rparr>,
      \<lparr>type = Delete, line = 2, count = Some 1, content = None\<rparr>]
     = apply_loop [''a'', ''b''] [\<lparr>type = Delete, line = 2, count = Some 1, content = None\<rparr>]
   \<and> applyTextEditChanges ''a\<newline>b'' [\<lparr>type = Insert, line = 1, count = None, content = Some []\<rparr>]
     = ''a\<newline>b''
   \<and> applyTextEditChanges ''a\<newline>b'' [\<lparr>type = Replace, line = 1, count = Some 1, content = None\<rparr>]
     = ''a\<newline>b''"
proof -
  let ?i = "\<lparr>type = Insert, line = 1, count = None, content = Some []\<rparr>"
  let ?r = "\<lparr>type = Replace, line = 1, count = Some 1, content = None\<rparr>"
  have ti: "type ?i = Insert \<or> type ?i = Replace" and ci: "content ?i = None \<or> content ?i = Some []"
    by simp_all
  have tr: "type ?r = Insert \<or> type ?r = Replace" and cr: "content ?r = None \<or> content ?r = Some []"
    by simp_all
  note i = empty_content_noop [OF ti ci,
      of "[''a'', ''b'']" "[\<lparr>type = Delete, line = 2, count = Some 1, content = None\<rparr>]"
         "''a\<newline>b''"]
  note r = empty_content_noop [OF tr cr, of "[]" "[]" "''a\<newline>b''"]
  from i r show ?thesis by blast
qed

section \<open>Properties of the directive extractor\<close>

lemma matchAll_index_ge: "(i, a) \<in> set (matchAll m pos s) \<Longrightarrow> pos \<le> i"
  by (induction m pos s rule: matchAll.induct)
     (auto split: option.splits if_splits, fastforce+)

lemma matchAll_sorted: "sorted_wrt (<) (map fst (matchAll m pos s))"
proof (induction m pos s rule: matchAll.induct)
  case (1 m pos)
  then show ?case by (simp split: option.splits)
next
  case (2 m pos c cs)
  show ?case
  proof (cases "m (c # cs)")
    case None
    with 2 show ?thesis by simp
  next
    case (Some ar)
    obtain a r where ar: "ar = (a, r)" by (cases ar)
    show ?thesis
    proof (cases "length r < length (c # cs)")
      case True
      have "pos < j" if "(j, b) \<in> set (matchAll m (pos + (length (c # cs) - length r)) r)" for j b
        using matchAll_index_ge [OF that] True by simp
      with 2(2) [OF Some [unfolded ar] refl True] Some ar True show ?thesis
        by auto
    next
      case False
      have "pos < j" if "(j, b) \<in> set (matchAll m (Suc pos) cs)" for j b
        using matchAll_index_ge [OF that] by simp
      with 2(3) [OF Some [unfolded ar] refl False] Some ar False show ?thesis
        by auto
    qed
  qed
qed


lemma insertRegex_Nil: "insertRegex [] = None"
  by (simp add: insertRegex_def)

lemma replaceRegex_Nil: "replaceRegex [] = None"
  by (simp add: replaceRegex_def)

lemma deleteRegex_Nil: "deleteRegex [] = None"
  by (simp add: deleteRegex_def)

lemma sorted_located:
  "sorted_wrt (<) (map fst (filter P (map (\<lambda>(i, m). (i, f m)) (matchAll rx 0 t))))"
proof -
  have "map fst (map (\<lambda>(i, m). (i, f m)) (matchAll rx 0 t)) = map fst (matchAll rx 0 t)"
    by (induction "matchAll rx 0 t") auto
  then have "sorted_wrt (<) (map fst (map (\<lambda>(i, m). (i, f m)) (matchAll rx 0 t)))"
    by (simp only: matchAll_sorted)
  then show ?thesis
    by (simp add: sorted_wrt_map sorted_wrt_filter)
qed

lemma lit_rest:
  "lit p k s = Some (a, r) \<Longrightarrow> (\<And>u. k u = Some (a, r) \<Longrightarrow> \<exists>zs. u = zs @ r) \<Longrightarrow> \<exists>zs. s = zs @ r"
proof (induction p k s rule: lit.induct)
  case (3 p ps k c cs)
  then have "\<exists>zs. cs = zs @ r" by (auto split: if_splits)
  then obtain zs where "cs = zs @ r" ..
  then have "c # cs = (c # zs) @ r" by simp
  then show ?case ..
qed auto

lemma star_rest:
  "star P k s = Some (a, r) \<Longrightarrow> (\<And>u. k u = Some (a, r) \<Longrightarrow> \<exists>zs. u = zs @ r) \<Longrightarrow> \<exists>zs. s = zs @ r"
proof (induction P k s rule: star.induct)
  case (2 P k c cs)
  show ?case
  proof (cases "P c \<and> star P k cs = Some (a, r)")
    case True
    with 2 have "\<exists>zs. cs = zs @ r" by simp
    then obtain zs where "cs = zs @ r" ..
    then have "c # cs = (c # zs) @ r" by simp
    then show ?thesis ..
  next
    case False
    with 2(2) have "k (c # cs) = Some (a, r)" by (auto split: if_splits option.splits)
    then show ?thesis by (rule 2(3))
  qed
qed auto

lemma plus_rest:
  "plus P k s = Some (a, r) \<Longrightarrow> (\<And>u. k u = Some (a, r) \<Longrightarrow> \<exists>zs. u = zs @ r) \<Longrightarrow> \<exists>zs. s = zs @ r"
proof (cases s)
  case (Cons c cs)
  assume m: "plus P k s = Some (a, r)" and k: "\<And>u. k u = Some (a, r) \<Longrightarrow> \<exists>zs. u = zs @ r"
  from m Cons have "star P k cs = Some (a, r)" by (auto split: if_splits)
  then have "\<exists>zs. cs = zs @ r" using k by (rule star_rest)
  then obtain zs where "cs = zs @ r" ..
  with Cons have "s = (c # zs) @ r" by simp
  then show ?thesis ..
qed auto

lemma lazy_star_rest:
  "lazy_star P k s = Some (a, r) \<Longrightarrow> (\<And>u. k u = Some (a, r) \<Longrightarrow> \<exists>zs. u = zs @ r) \<Longrightarrow> \<exists>zs. s = zs @ r"
proof (induction P k s rule: lazy_star.induct)
  case (2 P k c cs)
  show ?case
  proof (cases "k (c # cs) = Some (a, r)")
    case True
    then show ?thesis by (rule 2(3))
  next
    case False
    with 2(2) have n: "k (c # cs) = None" and p: "P c" and l: "lazy_star P k cs = Some (a, r)"
      by (auto split: if_splits option.splits)
    from 2(1) [OF n p l 2(3)] obtain zs where "cs = zs @ r" by blast
    then have "c # cs = (c # zs) @ r" by simp
    then show ?thesis ..
  qed
qed auto

lemma line_attr_rest:
  "line_attr k s = Some (a, r) \<Longrightarrow> (\<And>l u. k l u = Some (a, r) \<Longrightarrow> \<exists>zs. u = zs @ r)
   \<Longrightarrow> \<exists>zs. s = zs @ r"
  unfolding line_attr_def
  by (erule plus_rest lit_rest star_rest)+ blast

lemma count_attr_rest:
  assumes "count_attr k s = Some (a, r)" and k: "\<And>c u. k c u = Some (a, r) \<Longrightarrow> \<exists>zs. u = zs @ r"
  shows "\<exists>zs. s = zs @ r"
proof -
  let ?g = "plus is_space (lit ''count'' (star is_space (lit ''='' (star is_space (lit dq
             (\<lambda>d1. plus is_digit (\<lambda>d2. lit dq (k (Some (cap d1 d2))) d2) d1))))))"
  from assms(1) consider "?g s = Some (a, r)" | "k None s = Some (a, r)"
    by (auto simp: count_attr_def split: option.splits)
  then show ?thesis
  proof cases
    case 1
    then show ?thesis
      by (elim plus_rest lit_rest star_rest) (erule k)
  next
    case 2
    then show ?thesis by (rule k)
  qed
qed

lemma insertRegex_rest: "insertRegex s = Some (a, r) \<Longrightarrow> \<exists>zs. s = zs @ r"
  unfolding insertRegex_def
  by (erule lit_rest line_attr_rest star_rest lazy_star_rest)+ auto

lemma replaceRegex_rest: "replaceRegex s = Some (a, r) \<Longrightarrow> \<exists>zs. s = zs @ r"
  unfolding replaceRegex_def
  by (erule lit_rest line_attr_rest count_attr_rest star_rest lazy_star_rest)+ auto

lemma deleteRegex_rest: "deleteRegex s = Some (a, r) \<Longrightarrow> \<exists>zs. s = zs @ r"
  unfolding deleteRegex_def
  by (erule lit_rest line_attr_rest count_attr_rest star_rest lazy_star_rest)+ auto

lemma matchAll_at_index:
  "(\<And>s a r. m s = Some (a, r) \<Longrightarrow> \<exists>zs. s = zs @ r) \<Longrightarrow> (i, a) \<in> set (matchAll m pos s)
   \<Longrightarrow> \<exists>r. m (drop (i - pos) s) = Some (a, r)"
proof (induction m pos s arbitrary: i a rule: matchAll.induct)
  case (1 m pos)
  then show ?case by (auto split: option.splits dest: sym)
next
  case (2 m pos c cs)
  note rest = "2.prems"(1) and elem = "2.prems"(2)
  show ?case
  proof (cases "m (c # cs)")
    case None
    with elem have mem: "(i, a) \<in> set (matchAll m (Suc pos) cs)" by simp
    from matchAll_index_ge [OF mem] have "i - pos = Suc (i - Suc pos)" by simp
    with "2.IH"(1) [OF None rest mem] show ?thesis by simp
  next
    case (Some br)
    obtain b r where br: "br = (b, r)" by (cases br)
    show ?thesis
    proof (cases "(i, a) = (pos, b)")
      case True
      with Some br show ?thesis by simp
    next
      case ne: False
      show ?thesis
      proof (cases "length r < length (c # cs)")
        case True
        let ?p = "pos + (length (c # cs) - length r)"
        from elem Some br True ne have mem: "(i, a) \<in> set (matchAll m ?p r)"
          by auto
        from Some br have "m (c # cs) = Some (b, r)" by simp
        from rest [OF this] obtain zs where zs: "c # cs = zs @ r" ..
        then have "length (c # cs) = length zs + length r" by (metis length_append)
        then have p: "?p = pos + length zs" by simp
        from matchAll_index_ge [OF mem] p have "i - pos = length zs + (i - ?p)" by simp
        then have "drop (i - pos) (c # cs) = drop (i - ?p) r"
          by (simp only: zs drop_append) simp
        with "2.IH"(2) [OF Some [unfolded br] refl True rest mem] show ?thesis by simp
      next
        case False
        from elem Some br False ne have mem: "(i, a) \<in> set (matchAll m (Suc pos) cs)"
          by auto
        from matchAll_index_ge [OF mem] have "i - pos = Suc (i - Suc pos)" by simp
        with "2.IH"(3) [OF Some [unfolded br] refl False rest mem] show ?thesis by simp
      qed
    qed
  qed
qed


lemma located_insertions_at:
  "list_all (\<lambda>(i, e). type e = Insert
       \<and> (\<exists>m r. insertRegex (drop i t) = Some (m, r) \<and> e = insertion_of m))
     (located_insertions t)"
proof -
  have "type e = Insert \<and> (\<exists>m r. insertRegex (drop i t) = Some (m, r) \<and> e = insertion_of m)"
    if "(i, e) \<in> set (located_insertions t)" for i e
  proof -
    from that obtain m where m: "(i, m) \<in> set (matchAll insertRegex 0 t)" and e: "e = insertion_of m"
      by (auto simp: located_insertions_def)
    have "\<exists>r. insertRegex (drop (i - 0) t) = Some (m, r)"
      by (rule matchAll_at_index [where m = insertRegex, OF _ m]) (rule insertRegex_rest)
    then have "\<exists>r. insertRegex (drop i t) = Some (m, r)" by simp
    moreover from e have "type e = Insert" by (simp add: insertion_of_def)
    ultimately show ?thesis using e by blast
  qed
  then show ?thesis by (auto simp: list_all_iff)
qed

lemma located_replacements_at:
  "list_all (\<lambda>(i, e). type e = Replace
       \<and> (\<exists>m r. replaceRegex (drop i t) = Some (m, r) \<and> e = replacement_of m))
     (located_replacements t)"
proof -
  have "type e = Replace \<and> (\<exists>m r. replaceRegex (drop i t) = Some (m, r) \<and> e = replacement_of m)"
    if "(i, e) \<in> set (located_replacements t)" for i e
  proof -
    from that obtain m where m: "(i, m) \<in> set (matchAll replaceRegex 0 t)" and e: "e = replacement_of m"
      by (auto simp: located_replacements_def)
    have "\<exists>r. replaceRegex (drop (i - 0) t) = Some (m, r)"
      by (rule matchAll_at_index [where m = replaceRegex, OF _ m]) (rule replaceRegex_rest)
    then have "\<exists>r. replaceRegex (drop i t) = Some (m, r)" by simp
    moreover from e have "type e = Replace" by (simp add: replacement_of_def)
    ultimately show ?thesis using e by blast
  qed
  then show ?thesis by (auto simp: list_all_iff)
qed

lemma located_deletions_at:
  "list_all (\<lambda>(i, e). type e = Delete
       \<and> (\<exists>m r. deleteRegex (drop i t) = Some (m, r) \<and> e = deletion_of m))
     (located_deletions t)"
proof -
  have "type e = Delete \<and> (\<exists>m r. deleteRegex (drop i t) = Some (m, r) \<and> e = deletion_of m)"
    if "(i, e) \<in> set (located_deletions t)" for i e
  proof -
    from that obtain m where m: "(i, m) \<in> set (matchAll deleteRegex 0 t)" and e: "e = deletion_of m"
      by (auto simp: located_deletions_def)
    have "\<exists>r. deleteRegex (drop (i - 0) t) = Some (m, r)"
      by (rule matchAll_at_index [where m = deleteRegex, OF _ m]) (rule deleteRegex_rest)
    then have "\<exists>r. deleteRegex (drop i t) = Some (m, r)" by simp
    moreover from e have "type e = Delete" by (simp add: deletion_of_def)
    ultimately show ?thesis using e by blast
  qed
  then show ?thesis by (auto simp: list_all_iff)
qed

lemma parse_located:
  "parseTextEditMarkup message =
     map snd (located_insertions (trim message)) @ map snd (located_replacements (trim message))
     @ map snd (located_deletions (trim message))"
proof (cases "message = []")
  case True
  then show ?thesis
    by (simp add: parseTextEditMarkup_def trim_def located_insertions_def
          located_replacements_def located_deletions_def
          insertRegex_Nil replaceRegex_Nil deleteRegex_Nil)
next
  case False
  then show ?thesis
    by (simp add: parseTextEditMarkup_def Let_def allInsertions_def allReplacements_def
          allDeletions_def)
qed

text \<open>
  Claim C6 as stated fails: the result is grouped by kind, not ordered by position. In the
  message below the replace comes first in the text (index 0), the insert second (index
  47), and the insert is first in the result.
\<close>

theorem extraction_order_counterexample:
  "parseTextEditMarkup
     (''<textedit:replace line='' @ dq @ ''1'' @ dq @ ''>x</textedit:replace>''
      @ ''<textedit:insert line='' @ dq @ ''2'' @ dq @ ''>y</textedit:insert>'')
     = [\<lparr>type = Insert, line = 2, count = None, content = Some ''y''\<rparr>,
        \<lparr>type = Replace, line = 1, count = Some 1, content = Some ''x''\<rparr>]
   \<and> map fst (located_replacements
       (''<textedit:replace line='' @ dq @ ''1'' @ dq @ ''>x</textedit:replace>''
        @ ''<textedit:insert line='' @ dq @ ''2'' @ dq @ ''>y</textedit:insert>'')) = [0]
   \<and> map fst (located_insertions
       (''<textedit:replace line='' @ dq @ ''1'' @ dq @ ''>x</textedit:replace>''
        @ ''<textedit:insert line='' @ dq @ ''2'' @ dq @ ''>y</textedit:insert>'')) = [47]"
  by code_simp

text \<open>
  Claim C6, amended. The result is the inserts, then the replaces, then the deletes. Each
  group is in the order of the text: the indices of its matches increase strictly, and
  every directive of a group is built from a match of its kind's pattern at its index in
  the trimmed message.
\<close>

theorem extraction_grouped_by_kind:
  "parseTextEditMarkup message =
     map snd (located_insertions (trim message)) @ map snd (located_replacements (trim message))
     @ map snd (located_deletions (trim message))
   \<and> sorted_wrt (<) (map fst (located_insertions (trim message)))
   \<and> sorted_wrt (<) (map fst (located_replacements (trim message)))
   \<and> sorted_wrt (<) (map fst (located_deletions (trim message)))
   \<and> list_all (\<lambda>(i, e). type e = Insert
         \<and> (\<exists>m r. insertRegex (drop i (trim message)) = Some (m, r) \<and> e = insertion_of m))
       (located_insertions (trim message))
   \<and> list_all (\<lambda>(i, e). type e = Replace
         \<and> (\<exists>m r. replaceRegex (drop i (trim message)) = Some (m, r) \<and> e = replacement_of m))
       (located_replacements (trim message))
   \<and> list_all (\<lambda>(i, e). type e = Delete
         \<and> (\<exists>m r. deleteRegex (drop i (trim message)) = Some (m, r) \<and> e = deletion_of m))
       (located_deletions (trim message))"
proof -
  have s: "sorted_wrt (<) (map fst (located_insertions (trim message)))"
    "sorted_wrt (<) (map fst (located_replacements (trim message)))"
    "sorted_wrt (<) (map fst (located_deletions (trim message)))"
    by (simp_all only: located_insertions_def located_replacements_def located_deletions_def
          sorted_located)
  show ?thesis
    by (intro conjI parse_located s located_insertions_at located_replacements_at
          located_deletions_at)
qed

lemma extract_line_positive: "list_all (\<lambda>e. line e > 0) (parseTextEditMarkup message)"
  by (auto simp: list_all_iff parseTextEditMarkup_def Let_def allInsertions_def allReplacements_def
        allDeletions_def located_insertions_def located_replacements_def located_deletions_def)

text \<open>
  Claim C5 (extraction filter), evaluated where the code departs from it. The filter on
  the count is \<open>(edit.count || 1) > 0\<close>: a parsed count of 0 is replaced by 1 before the
  comparison, so the directive is kept, with its count 0. (The filter on the line works:
  every returned directive has a positive line, lemma \<open>extract_line_positive\<close>.)
\<close>

theorem zero_count_retained:
  "parseTextEditMarkup (''<textedit:delete line='' @ dq @ ''3'' @ dq @ '' count='' @ dq @ ''0'' @ dq @ ''/>'')
     = [\<lparr>type = Delete, line = 3, count = Some 0, content = None\<rparr>]"
  by code_simp

section \<open>Properties of the completeness check\<close>

lemma length_matchAll_index:
  "length (matchAll m p s) = length (matchAll m q s)"
proof (induction m p s arbitrary: q rule: matchAll.induct)
  case (1 m pos)
  then show ?case by (simp split: option.splits)
next
  case (2 m pos c cs)
  show ?case
  proof (cases "m (c # cs)")
    case None
    with "2.IH"(1) [OF None, of "Suc q"] show ?thesis by simp
  next
    case (Some ar)
    obtain a r where ar: "ar = (a, r)" by (cases ar)
    show ?thesis
    proof (cases "length r < length (c # cs)")
      case True
      from "2.IH"(2) [OF Some [unfolded ar] refl True, of "q + (length (c # cs) - length r)"]
      show ?thesis using Some ar True by simp
    next
      case False
      from "2.IH"(3) [OF Some [unfolded ar] refl False, of "Suc q"]
      show ?thesis using Some ar False by simp
    qed
  qed
qed

lemma count_matches_Nil: "m [] = None \<Longrightarrow> count_matches m [] = 0"
  by (simp add: count_matches_def)

lemma count_matches_None: "m (c # cs) = None \<Longrightarrow> count_matches m (c # cs) = count_matches m cs"
  using length_matchAll_index [of m "Suc 0" cs 0] by (simp add: count_matches_def)

lemma count_matches_Some:
  assumes "m s = Some (a, r)" and "length r < length s"
  shows "count_matches m s = Suc (count_matches m r)"
proof (cases s)
  case Nil
  with assms show ?thesis by simp
next
  case (Cons c cs)
  with assms length_matchAll_index [of m "length (c # cs) - length r" r 0]
  show ?thesis by (simp add: count_matches_def)
qed

lemma count_matches_alt:
  assumes m: "\<And>s. m s = (case m1 s of Some x \<Rightarrow> Some x | None \<Rightarrow> m2 s)"
    and h1: "\<And>s a r. m1 s = Some (a, r) \<Longrightarrow>
               length r < length s \<and> count_matches m2 s = count_matches m2 r"
    and h2: "\<And>s a r. m1 s = None \<Longrightarrow> m2 s = Some (a, r) \<Longrightarrow>
               length r < length s \<and> count_matches m1 s = count_matches m1 r"
  shows "count_matches m s = count_matches m1 s + count_matches m2 s"
proof (induction s rule: length_induct)
  case (1 s)
  show ?case
  proof (cases "m1 s")
    case (Some ar)
    obtain a r where ar: "ar = (a, r)" by (cases ar)
    from h1 Some ar have l: "length r < length s" and c2: "count_matches m2 s = count_matches m2 r"
      by blast+
    from m [of s] Some ar have "m s = Some (a, r)" by simp
    then have "count_matches m s = Suc (count_matches m r)" using l by (rule count_matches_Some)
    moreover from Some ar have "count_matches m1 s = Suc (count_matches m1 r)"
      using l by (simp add: count_matches_Some)
    moreover from 1 l have "count_matches m r = count_matches m1 r + count_matches m2 r" by blast
    ultimately show ?thesis using c2 by simp
  next
    case n1: None
    show ?thesis
    proof (cases "m2 s")
      case (Some ar)
      obtain a r where ar: "ar = (a, r)" by (cases ar)
      from h2 n1 Some ar have l: "length r < length s" and c1: "count_matches m1 s = count_matches m1 r"
        by blast+
      from m [of s] n1 Some ar have "m s = Some (a, r)" by simp
      then have "count_matches m s = Suc (count_matches m r)" using l by (rule count_matches_Some)
      moreover from Some ar have "count_matches m2 s = Suc (count_matches m2 r)"
        using l by (simp add: count_matches_Some)
      moreover from 1 l have "count_matches m r = count_matches m1 r + count_matches m2 r" by blast
      ultimately show ?thesis using c1 by simp
    next
      case n2: None
      from m [of s] n1 n2 have n: "m s = None" by simp
      show ?thesis
      proof (cases s)
        case Nil
        with n n1 n2 show ?thesis by (simp add: count_matches_Nil)
      next
        case (Cons c cs)
        with 1 have "count_matches m cs = count_matches m1 cs + count_matches m2 cs" by simp
        with Cons n n1 n2 show ?thesis by (simp add: count_matches_None)
      qed
    qed
  qed
qed

lemma lit_Some_iff: "lit p k s = Some x \<longleftrightarrow> (\<exists>r. s = p @ r \<and> k r = Some x)"
  by (induction p k s rule: lit.induct) auto

lemma lit_done_iff: "lit p done_match s = Some (a, r) \<longleftrightarrow> s = p @ r"
  by (auto simp: lit_Some_iff done_match_def)

lemma lit_None_iff: "lit p k s = None \<longleftrightarrow> (\<forall>r. s = p @ r \<longrightarrow> k r = None)"
  by (induction p k s rule: lit.induct) auto

lemma lit_lit: "lit p (lit q k) s = lit (p @ q) k s"
  by (induction p "lit q k" s rule: lit.induct) auto

lemma lit_alt:
  "lit p (alt a b k) s = (case lit p (a k) s of Some x \<Rightarrow> Some x | None \<Rightarrow> lit p (b k) s)"
  by (induction p "alt a b k" s rule: lit.induct) (auto simp: alt_def split: option.splits)


lemma star_not_gt_slash:
  "star not_gt (lit ''/>'' done_match) u = Some (a, r)
   \<Longrightarrow> \<exists>xs. u = xs @ ''/>'' @ r \<and> CHR ''>'' \<notin> set xs"
proof (induction u)
  case Nil
  then show ?case by simp
next
  case (Cons c cs)
  show ?case
  proof (cases "not_gt c \<and> star not_gt (lit ''/>'' done_match) cs = Some (a, r)")
    case True
    with Cons.IH obtain xs where "cs = xs @ ''/>'' @ r" "CHR ''>'' \<notin> set xs" by blast
    with True have "c # cs = (c # xs) @ ''/>'' @ r \<and> CHR ''>'' \<notin> set (c # xs)"
      by (auto simp: not_gt_def)
    then show ?thesis by blast
  next
    case False
    with Cons.prems have "lit ''/>'' done_match (c # cs) = Some (a, r)"
      by (auto split: if_splits option.splits)
    then have "c # cs = ''/>'' @ r" by (simp only: lit_done_iff)
    then have "c # cs = [] @ ''/>'' @ r \<and> CHR ''>'' \<notin> set []" by simp
    then show ?thesis by blast
  qed
qed


lemma count_open_pair:
  "count_matches (\<lambda>s. case lit ''<textedit:replace'' done_match s of Some x \<Rightarrow> Some x
                        | None \<Rightarrow> lit ''<textedit:delete'' done_match s) s
   = count_matches (lit ''<textedit:replace'' done_match) s
     + count_matches (lit ''<textedit:delete'' done_match) s"
proof (rule count_matches_alt)
  fix s :: string and a :: unit and r :: string
  assume "lit ''<textedit:replace'' done_match s = Some (a, r)"
  then have "s = ''<textedit:replace'' @ r" by (simp only: lit_done_iff)
  then show "length r < length s
      \<and> count_matches (lit ''<textedit:delete'' done_match) s
        = count_matches (lit ''<textedit:delete'' done_match) r"
    by (simp add: count_matches_None)
next
  fix s :: string and a :: unit and r :: string
  assume "lit ''<textedit:delete'' done_match s = Some (a, r)"
  then have "s = ''<textedit:delete'' @ r" by (simp only: lit_done_iff)
  then show "length r < length s
      \<and> count_matches (lit ''<textedit:replace'' done_match) s
        = count_matches (lit ''<textedit:replace'' done_match) r"
    by (simp add: count_matches_None)
qed simp

lemma openTagRegex_alt:
  "openTagRegex s =
     (case lit ''<textedit:insert'' done_match s of Some x \<Rightarrow> Some x
      | None \<Rightarrow> (case lit ''<textedit:replace'' done_match s of Some x \<Rightarrow> Some x
                 | None \<Rightarrow> lit ''<textedit:delete'' done_match s))"
  by (simp add: openTagRegex_def lit_alt lit_lit cong: option.case_cong)

lemma openTags_sum:
  "openTags s = opening_markers Insert s + opening_markers Replace s + opening_markers Delete s"
proof -
  let ?m23 = "\<lambda>s. case lit ''<textedit:replace'' done_match s of Some x \<Rightarrow> Some x
                        | None \<Rightarrow> lit ''<textedit:delete'' done_match s"
  have "count_matches openTagRegex s
        = count_matches (lit ''<textedit:insert'' done_match) s + count_matches ?m23 s"
  proof (rule count_matches_alt)
    fix s show "openTagRegex s = (case lit ''<textedit:insert'' done_match s of Some x \<Rightarrow> Some x
                 | None \<Rightarrow> ?m23 s)"
      by (rule openTagRegex_alt)
  next
    fix s :: string and a :: unit and r :: string
    assume "lit ''<textedit:insert'' done_match s = Some (a, r)"
    then have "s = ''<textedit:insert'' @ r" by (simp only: lit_done_iff)
    then show "length r < length s \<and> count_matches ?m23 s = count_matches ?m23 r"
      by (simp add: count_open_pair) (simp add: count_matches_None)
  next
    fix s :: string and a :: unit and r :: string
    assume "?m23 s = Some (a, r)"
    then have "s = ''<textedit:replace'' @ r \<or> s = ''<textedit:delete'' @ r"
      by (auto simp only: lit_done_iff split: option.splits)
    then show "length r < length s
        \<and> count_matches (lit ''<textedit:insert'' done_match) s
          = count_matches (lit ''<textedit:insert'' done_match) r"
      by (auto simp: count_matches_None)
  qed
  then show ?thesis
    by (simp add: openTags_def opening_markers_def count_open_pair)
qed


lemma first_occurrence_unique:
  "c \<notin> set xs \<Longrightarrow> c \<notin> set ys \<Longrightarrow> xs @ c # r = ys @ c # r' \<Longrightarrow> xs = ys"
proof (induction xs arbitrary: ys)
  case Nil
  then show ?case by (cases ys) auto
next
  case (Cons x xs)
  then show ?case by (cases ys) auto
qed

lemma no_closer_before_slash_gt:
  assumes p: "CHR ''>'' \<notin> set p" and ys: "CHR ''>'' \<notin> set ys"
    and l: "p = [] \<or> last p \<noteq> CHR ''/''"
  shows "lit (p @ ''>'') done_match (ys @ ''/>'' @ r) = None"
proof (rule ccontr)
  assume "lit (p @ ''>'') done_match (ys @ ''/>'' @ r) \<noteq> None"
  then obtain a r' where "lit (p @ ''>'') done_match (ys @ ''/>'' @ r) = Some (a, r')"
    by auto
  then have "ys @ ''/>'' @ r = (p @ ''>'') @ r'" by (simp only: lit_done_iff)
  then have e: "(ys @ ''/'') @ CHR ''>'' # r = p @ CHR ''>'' # r'" by simp
  from ys have n: "CHR ''>'' \<notin> set (ys @ ''/'')" by simp
  from n p e have "ys @ ''/'' = p" by (rule first_occurrence_unique)
  with l show False by auto
qed

lemma count_closer_skip:
  assumes p: "CHR ''>'' \<notin> set p" and l: "p = [] \<or> last p \<noteq> CHR ''/''"
  shows "CHR ''>'' \<notin> set ys \<Longrightarrow>
         count_matches (lit (p @ ''>'') done_match) (ys @ ''/>'' @ r)
         = count_matches (lit (p @ ''>'') done_match) (''/>'' @ r)"
proof (induction ys)
  case Nil
  show ?case by simp
next
  case (Cons y ys)
  from Cons.prems have "lit (p @ ''>'') done_match ((y # ys) @ ''/>'' @ r) = None"
    by (intro no_closer_before_slash_gt p l)
  then have "count_matches (lit (p @ ''>'') done_match) ((y # ys) @ ''/>'' @ r)
             = count_matches (lit (p @ ''>'') done_match) (ys @ ''/>'' @ r)"
    by (simp add: count_matches_None del: lit.simps)
  with Cons show ?case by simp
qed

lemma selfclosing_Some:
  "lit ''<textedit:delete'' (star not_gt (lit ''/>'' done_match)) s = Some (a, r)
   \<Longrightarrow> \<exists>xs. s = ''<textedit:delete'' @ xs @ ''/>'' @ r \<and> CHR ''>'' \<notin> set xs"
  by (auto simp only: lit_Some_iff dest!: star_not_gt_slash)

lemma count_closeInsert_skip:
  "CHR ''>'' \<notin> set xs \<Longrightarrow>
   count_matches (lit ''</textedit:insert>'' done_match) (''<textedit:delete'' @ xs @ ''/>'' @ r)
   = count_matches (lit ''</textedit:insert>'' done_match) r"
  using count_closer_skip [of "''</textedit:insert''" xs r]
  by (simp add: count_matches_None)

lemma count_closeReplace_skip:
  "CHR ''>'' \<notin> set xs \<Longrightarrow>
   count_matches (lit ''</textedit:replace>'' done_match) (''<textedit:delete'' @ xs @ ''/>'' @ r)
   = count_matches (lit ''</textedit:replace>'' done_match) r"
  using count_closer_skip [of "''</textedit:replace''" xs r]
  by (simp add: count_matches_None)


lemma count_close_pair:
  "count_matches (\<lambda>s. case lit ''</textedit:insert>'' done_match s of Some x \<Rightarrow> Some x
                        | None \<Rightarrow> lit ''</textedit:replace>'' done_match s) s
   = count_matches (lit ''</textedit:insert>'' done_match) s
     + count_matches (lit ''</textedit:replace>'' done_match) s"
proof (rule count_matches_alt)
  fix s :: string and a :: unit and r :: string
  assume "lit ''</textedit:insert>'' done_match s = Some (a, r)"
  then have "s = ''</textedit:insert>'' @ r" by (simp only: lit_done_iff)
  then show "length r < length s
      \<and> count_matches (lit ''</textedit:replace>'' done_match) s
        = count_matches (lit ''</textedit:replace>'' done_match) r"
    by (simp add: count_matches_None)
next
  fix s :: string and a :: unit and r :: string
  assume "lit ''</textedit:replace>'' done_match s = Some (a, r)"
  then have "s = ''</textedit:replace>'' @ r" by (simp only: lit_done_iff)
  then show "length r < length s
      \<and> count_matches (lit ''</textedit:insert>'' done_match) s
        = count_matches (lit ''</textedit:insert>'' done_match) r"
    by (simp add: count_matches_None)
qed simp

lemma closeTagRegex_alt:
  "closeTagRegex s =
     (case (case lit ''</textedit:insert>'' done_match s of Some x \<Rightarrow> Some x
            | None \<Rightarrow> lit ''</textedit:replace>'' done_match s) of
        Some x \<Rightarrow> Some x
      | None \<Rightarrow> lit ''<textedit:delete'' (star not_gt (lit ''/>'' done_match)) s)"
  by (simp add: closeTagRegex_def alt_def [of _ _ done_match] lit_alt lit_lit
        cong: option.case_cong)

lemma closeTags_sum:
  "closeTags s = closing_markers Insert s + closing_markers Replace s + closing_markers Delete s"
proof -
  let ?m12 = "\<lambda>s. case lit ''</textedit:insert>'' done_match s of Some x \<Rightarrow> Some x
                        | None \<Rightarrow> lit ''</textedit:replace>'' done_match s"
  let ?sd = "lit ''<textedit:delete'' (star not_gt (lit ''/>'' done_match))"
  have "count_matches closeTagRegex s = count_matches ?m12 s + count_matches ?sd s"
  proof (rule count_matches_alt)
    fix s show "closeTagRegex s = (case ?m12 s of Some x \<Rightarrow> Some x | None \<Rightarrow> ?sd s)"
      by (rule closeTagRegex_alt)
  next
    fix s :: string and a :: unit and r :: string
    assume "?m12 s = Some (a, r)"
    then have "s = ''</textedit:insert>'' @ r \<or> s = ''</textedit:replace>'' @ r"
      by (auto simp only: lit_done_iff split: option.splits)
    then show "length r < length s \<and> count_matches ?sd s = count_matches ?sd r"
      by (auto simp: count_matches_None)
  next
    fix s :: string and a :: unit and r :: string
    assume "?sd s = Some (a, r)"
    then obtain xs where s: "s = ''<textedit:delete'' @ xs @ ''/>'' @ r" and xs: "CHR ''>'' \<notin> set xs"
      by (blast dest: selfclosing_Some)
    from s have "length r < length s" by simp
    moreover have "count_matches ?m12 s = count_matches ?m12 r"
      unfolding count_close_pair s
      using count_closeInsert_skip [OF xs, of r] count_closeReplace_skip [OF xs, of r]
      by (rule arg_cong2)
    ultimately show "length r < length s \<and> count_matches ?m12 s = count_matches ?m12 r" ..
  qed
  then show ?thesis
    by (simp add: closeTags_def closing_markers_def count_close_pair)
qed

text \<open>
  Claim C3 as stated fails. A closing marker alone is reported complete: the check first
  asks for an opening marker and, finding none, does not count at all. And a text whose
  insert is opened once and never closed is reported complete when a replace closer
  follows, because the counts are totals over the kinds.
\<close>

theorem is_complete_counterexample:
  "is_complete ''</textedit:insert>''
   \<and> opening_markers Insert ''</textedit:insert>'' = 0
   \<and> closing_markers Insert ''</textedit:insert>'' = 1
   \<and> is_complete ''<textedit:insert></textedit:replace>''
   \<and> opening_markers Insert ''<textedit:insert></textedit:replace>'' = 1
   \<and> closing_markers Insert ''<textedit:insert></textedit:replace>'' = 0
   \<and> \<not> per_kind_balanced ''<textedit:insert></textedit:replace>''"
  by code_simp

text \<open>
  Claim C3, amended. The text is complete iff it has no opening marker (in any letter
  case), or the number of opening markers of all three kinds together equals the number
  of closing markers of all three kinds together (insert closers, replace closers and
  self-closing deletes). So a text in which every kind is balanced is complete.
\<close>

theorem is_complete_totals:
  "(is_complete c \<longleftrightarrow>
      \<not> test hasTagRegex c
      \<or> opening_markers Insert c + opening_markers Replace c + opening_markers Delete c
        = closing_markers Insert c + closing_markers Replace c + closing_markers Delete c)
   \<and> (per_kind_balanced c \<longrightarrow> is_complete c)"
  by (simp add: is_complete_def hasIncompleteXmlTags_def openTags_sum closeTags_sum
        per_kind_balanced_def)

theorem is_complete_totals_witness:
  "test hasTagRegex (''<textedit:insert line='' @ dq @ ''1'' @ dq @ ''>x</textedit:insert>'')
   \<and> per_kind_balanced (''<textedit:insert line='' @ dq @ ''1'' @ dq @ ''>x</textedit:insert>'')
   \<and> is_complete (''<textedit:insert line='' @ dq @ ''1'' @ dq @ ''>x</textedit:insert>'')
   \<and> test hasTagRegex (''<textedit:insert line='' @ dq @ ''1'' @ dq @ ''>x'')
   \<and> \<not> is_complete (''<textedit:insert line='' @ dq @ ''1'' @ dq @ ''>x'')"
proof -
  let ?done = "''<textedit:insert line='' @ dq @ ''1'' @ dq @ ''>x</textedit:insert>''"
  let ?open = "''<textedit:insert line='' @ dq @ ''1'' @ dq @ ''>x''"
  have t: "test hasTagRegex ?done" "test hasTagRegex ?open"
    by code_simp+
  have b: "per_kind_balanced ?done"
    by code_simp
  have n: "opening_markers Insert ?open + opening_markers Replace ?open
             + opening_markers Delete ?open
           \<noteq> closing_markers Insert ?open + closing_markers Replace ?open
             + closing_markers Delete ?open"
    by code_simp
  from is_complete_totals [of ?done] b have "is_complete ?done" by blast
  moreover from is_complete_totals [of ?open] t(2) n have "\<not> is_complete ?open" by blast
  ultimately show ?thesis using t b by blast
qed

end
